theory Spec2Isabelle
  imports Main "HOL-Library.AList"
begin

section \<open>The preserve orchestrator of packages/preserve/lib/preserve.ts\<close>

text \<open>
  The theory embeds the one function of \<^verbatim>\<open>preserve.ts\<close>, the async generator
  \<^verbatim>\<open>preserve\<close>, and its helper \<^verbatim>\<open>assertModuleExists\<close>. A run of the generator,
  consumed to exhaustion, is a function from its options to an outcome and a record of
  everything the run did that a caller, a loader, a recipe or a claim can observe: the
  request object as the run left it, the calls of \<^verbatim>\<open>loader.load\<close>, the recipes whose
  \<^verbatim>\<open>preserve\<close> was called, the events yielded, and the labels.
\<close>

subsection \<open>Values, errors and JavaScript maps\<close>

type_synonym name = string

text \<open>A value of type \<^verbatim>\<open>any\<close>: settings, targets and labels are opaque to the code.\<close>

datatype any = Undefined | Value nat

text \<open>
  What the code can throw: the \<^verbatim>\<open>Error\<close> of \<^verbatim>\<open>assertModuleExists\<close> with its message,
  the \<^verbatim>\<open>TypeError\<close> of the runtime when a property of \<^verbatim>\<open>undefined\<close> is read, and
  whatever a loader or a recipe raises.
\<close>

datatype exn = Error string | TypeError | Raised any

text \<open>
  A \<^verbatim>\<open>Map<string, T>\<close> keeps its keys in insertion order and
  \<^verbatim>\<open>Array.from(modules.keys())\<close> lists them in that order, so a map is an association
  list. \<^verbatim>\<open>m.get(k)\<close> is \<^term>\<open>map_of m k\<close> (\<^term>\<open>None\<close> for \<^verbatim>\<open>undefined\<close>), and
  \<^verbatim>\<open>m.set(k, v)\<close> is \<^term>\<open>AList.update k v m\<close>: a key that is present keeps its place,
  a new key goes to the end.
\<close>

type_synonym 'a jsmap = "(name \<times> 'a) list"

definition keys :: "'a jsmap \<Rightarrow> name list" where
  "keys m = map fst m"

definition has :: "'a jsmap \<Rightarrow> name \<Rightarrow> bool" where
  "has m k = (k \<in> set (keys m))"

text \<open>\<^verbatim>\<open>m.get(k)\<close> on a \<^verbatim>\<open>Map<string, any>\<close>: a missing key reads as \<^verbatim>\<open>undefined\<close>.\<close>

definition get_any :: "any jsmap \<Rightarrow> name \<Rightarrow> any" where
  "get_any m k = (case map_of m k of None \<Rightarrow> Undefined | Some v \<Rightarrow> v)"

text \<open>\<^verbatim>\<open>xs.join(sep)\<close> on an array of strings.\<close>

fun join :: "string \<Rightarrow> string list \<Rightarrow> string" where
  "join sep [] = []"
| "join sep [x] = x"
| "join sep (x # y # ys) = x @ sep @ join sep (y # ys)"

subsection \<open>Events and the step controller\<close>

text \<open>
  Modelled from the spec: the event type \<^verbatim>\<open>Processes.Event\<close> is imported from
  \<^verbatim>\<open>./processes\<close>, which is not among the sources. The spec (section 3) lists its
  alternatives, each carrying the scope (the list of recipe names) it belongs to.
\<close>

datatype event =
    Begin "name list"
  | Log "name list" string
  | Declare "name list" string
  | StepStatus "name list" string string
  | Succeed "name list" any
  | Fail "name list" exn

text \<open>
  Modelled from the spec: \<^verbatim>\<open>Processes.State\<close>, of which the code reads only \<^verbatim>\<open>Done\<close>;
  its comment on \<^verbatim>\<open>controller.succeed\<close> names an active state as well.
\<close>

datatype State = Active | Done | OtherState nat

text \<open>
  The class \<^verbatim>\<open>Processes.Steps.Controller\<close> is not among the sources either, so the
  controller is a parameter of the model: its constructor, the three methods the
  executor calls and the \<^verbatim>\<open>state\<close> it reads, over a type \<open>'s\<close> of whatever a
  controller object holds besides its scope. The scope is fixed by the constructor
  (\<^verbatim>\<open>new Controller({ scope: [recipe.name] })\<close>) and handed to every method. A method
  returns the events it yields and the controller as it leaves it; it does not raise.
\<close>

record 's Controller =
  c_new :: "name list \<Rightarrow> 's"
  c_begin :: "name list \<Rightarrow> 's \<Rightarrow> event list \<times> 's"
  c_succeed :: "name list \<Rightarrow> any \<Rightarrow> 's \<Rightarrow> event list \<times> 's"
  c_fail :: "name list \<Rightarrow> exn \<Rightarrow> 's \<Rightarrow> event list \<times> 's"
  c_state :: "'s \<Rightarrow> State"

subsection \<open>Requests, loaders, recipes\<close>

text \<open>
  \<^verbatim>\<open>settings?\<close> is optional: \<^term>\<open>None\<close> when the request has no such property, which
  is what \<^verbatim>\<open>"settings" in request\<close> tests. A request that has the property holds a
  map in it.
\<close>

record Request =
  loader :: name
  recipe :: name
  settings :: "any jsmap option"

text \<open>\<^verbatim>\<open>loader.load(settings)\<close> returns the target or raises.\<close>

record Loader =
  load :: "any \<Rightarrow> exn + any"

text \<open>
  \<^verbatim>\<open>recipe.preserve({ target, labels, settings, log, declare, step })\<close> is a generator:
  it yields events and then returns a label or raises. The three controls are methods
  bound to the recipe's controller, so the recipe can change the controller: the
  model of a recipe's computation takes the target, the labels, the settings and the
  controller, and returns the events yielded, the label or the error, and the
  controller as the computation leaves it. The computation is one that completes or
  raises, and it reads the labels without writing to them.
\<close>

record 's Recipe =
  name :: name
  dependencies :: "name list"
  recipe_preserve :: "any \<Rightarrow> any jsmap \<Rightarrow> any \<Rightarrow> 's \<Rightarrow> (event list \<times> (exn + any)) \<times> 's"

record 's PreserveOptions =
  request :: Request
  loaders :: "Loader jsmap"
  recipes :: "'s Recipe jsmap"

subsection \<open>assertModuleExists\<close>

definition assertModuleExists :: "name \<Rightarrow> string option \<Rightarrow> 'a jsmap \<Rightarrow> exn + unit" where
  "assertModuleExists nm kind modules =
     (let kind' = (case kind of None \<Rightarrow> ''module'' | Some k \<Rightarrow> k)
      in if \<not> has modules nm
         then Inl (Error (''Unknown '' @ kind' @ '' with name '' @ nm @ ''. '' @
                          ''Possible choices: ['' @ join '', '' (keys modules) @ '']''))
         else Inr ())"

definition assertLoaderExists :: "name \<Rightarrow> Loader jsmap \<Rightarrow> exn + unit" where
  "assertLoaderExists nm modules = assertModuleExists nm (Some ''loader'') modules"

definition assertRecipeExists :: "name \<Rightarrow> 's Recipe jsmap \<Rightarrow> exn + unit" where
  "assertRecipeExists nm modules = assertModuleExists nm (Some ''recipe'') modules"

subsection \<open>Planning (lines 47 to 69)\<close>

text \<open>
  The inner loop \<^verbatim>\<open>for (const name of unvisited) { visited.add(name); queue.push(name) }\<close>.
\<close>

fun enqueue :: "name list \<Rightarrow> name set \<times> name list \<Rightarrow> name set \<times> name list" where
  "enqueue [] (visited, queue) = (visited, queue)"
| "enqueue (n # ns) (visited, queue) = enqueue ns (insert n visited, queue @ [n])"

lemma enqueue_eq: "enqueue ns (visited, queue) = (visited \<union> set ns, queue @ ns)"
  by (induction ns arbitrary: visited queue) auto

text \<open>Every name that some registered recipe lists as a dependency.\<close>

definition listed :: "'s Recipe jsmap \<Rightarrow> name set" where
  "listed rs = (\<Union>r \<in> snd ` set rs. set (dependencies r))"

lemma finite_listed: "finite (listed rs)"
  by (simp add: listed_def)

lemma map_of_listed:
  "map_of rs k = Some r \<Longrightarrow> set (dependencies r) \<subseteq> listed rs"
  by (auto simp: listed_def dest!: map_of_SomeD intro!: bexI [of _ "(k, r)"])

text \<open>
  The \<^verbatim>\<open>while (queue.length > 0)\<close> loop. \<^verbatim>\<open>recipes.get(queue.shift())\<close> is
  \<^verbatim>\<open>undefined\<close> for a name that is not registered, and the argument \<^verbatim>\<open>current.name\<close>
  of the assertion that follows is evaluated first: reading it raises the TypeError.
  The filter runs over the whole dependency list before any name is added to
  \<^verbatim>\<open>visited\<close>.
\<close>

function plan_loop ::
  "'s Recipe jsmap \<Rightarrow> name set \<Rightarrow> name list \<Rightarrow> 's Recipe list \<Rightarrow> exn + 's Recipe list" where
  "plan_loop rs visited [] plan = Inr plan"
| "plan_loop rs visited (q # queue) plan =
     (case map_of rs q of
        None \<Rightarrow> Inl TypeError
      | Some current \<Rightarrow>
          (case assertRecipeExists (name current) rs of
             Inl e \<Rightarrow> Inl e
           | Inr _ \<Rightarrow>
               (let unvisited = filter (\<lambda>dependency. dependency \<notin> visited) (dependencies current)
                in case enqueue unvisited (visited, queue) of
                     (visited', queue') \<Rightarrow> plan_loop rs visited' queue' (current # plan))))"
  by pat_completeness auto

termination
proof (relation "inv_image (less_than <*lex*> less_than)
         (\<lambda>(rs, visited, queue, plan). (card (listed rs - visited), length queue))")
  show "wf (inv_image (less_than <*lex*> less_than)
         (\<lambda>(rs, visited, queue, plan). (card (listed rs - visited), length queue)))"
    by (intro wf_inv_image wf_lex_prod wf_less_than)
next
  fix rs :: "'s Recipe jsmap" and visited q queue and plan :: "'s Recipe list"
    and current ok unvisited visited' queue'
  assume cur: "map_of rs q = Some current"
    and "assertRecipeExists (name current) rs = Inr ok"
    and unv: "unvisited = filter (\<lambda>dependency. dependency \<notin> visited) (dependencies current)"
    and enq: "(visited', queue') = enqueue unvisited (visited, queue)"
  from enq have v': "visited' = visited \<union> set unvisited" and q': "queue' = queue @ unvisited"
    by (simp_all add: enqueue_eq)
  have sub: "set unvisited \<subseteq> listed rs - visited"
    using map_of_listed [OF cur] unv by auto
  show "((rs, visited', queue', current # plan), (rs, visited, q # queue, plan))
        \<in> inv_image (less_than <*lex*> less_than)
            (\<lambda>(rs, visited, queue, plan). (card (listed rs - visited), length queue))"
  proof (cases "unvisited = []")
    case True
    with v' q' show ?thesis by simp
  next
    case False
    then obtain d where d: "d \<in> set unvisited" by (cases unvisited) auto
    have "listed rs - visited' \<subset> listed rs - visited"
      using sub d v' by auto
    then have "card (listed rs - visited') < card (listed rs - visited)"
      by (intro psubset_card_mono) (simp_all add: finite_listed)
    then show ?thesis by simp
  qed
qed

text \<open>
  Lines 47 to 50: the visited set starts empty and the queue holds the root recipe's
  name.
\<close>

definition planning :: "'s Recipe jsmap \<Rightarrow> 's Recipe \<Rightarrow> exn + 's Recipe list" where
  "planning rs root = plan_loop rs {} [name root] []"

subsection \<open>What a run does\<close>

text \<open>
  The effects of a run so far: the request object (the run assigns to its
  \<^verbatim>\<open>settings\<close> property), the argument of each call of \<^verbatim>\<open>loader.load\<close>, the name of
  each recipe whose \<^verbatim>\<open>preserve\<close> was called, the events yielded, and the local
  \<^verbatim>\<open>labels\<close>.
\<close>

record Run =
  req :: Request
  loads :: "any list"
  executed :: "name list"
  events :: "event list"
  labels :: "any jsmap"

text \<open>
  How the generator ends: it runs off the end of the plan (line 128), returns after the
  fail events (line 115), returns because the controller is not done (line 123), or
  throws.
\<close>

datatype outcome = Finished | Halted_on_fail | Halted_not_done | Threw exn

subsection \<open>Set-up, loading and planning (lines 20 to 69)\<close>

text \<open>
  Lines 22 to 24 assign an empty map to \<^verbatim>\<open>request.settings\<close> when the request has no
  such property; this is the map \<^verbatim>\<open>request.settings\<close> holds from there on.
\<close>

definition settings_after :: "Request \<Rightarrow> any jsmap" where
  "settings_after r = (case settings r of None \<Rightarrow> [] | Some m \<Rightarrow> m)"

text \<open>
  The part of \<^verbatim>\<open>preserve\<close> before the first \<^verbatim>\<open>yield\<close>. It ends the run with an
  exception, or hands the settings map, the target and the plan to the executor.
  \<^verbatim>\<open>recipes.get(request.recipe)\<close> is not checked: \<^verbatim>\<open>recipe.name\<close> on line 48, after
  the load, is where an unregistered root recipe raises.
\<close>

definition prepare ::
  "'s PreserveOptions \<Rightarrow> (outcome \<times> Run) + (any jsmap \<times> any \<times> 's Recipe list \<times> Run)" where
  "prepare options =
     (let request0 = request options;
          m = settings_after request0;
          run0 = \<lparr>req = request0\<lparr>settings := Some m\<rparr>, loads = [], executed = [],
                  events = [], labels = []\<rparr>
      in case assertLoaderExists (loader request0) (loaders options) of
           Inl e \<Rightarrow> Inl (Threw e, run0)
         | Inr _ \<Rightarrow>
             (case map_of (loaders options) (loader request0) of
                None \<Rightarrow> Inl (Threw TypeError, run0)
              | Some ld \<Rightarrow>
                  (let loaderSettings = get_any m (loader request0);
                       run1 = run0\<lparr>loads := [loaderSettings]\<rparr>
                   in case load ld loaderSettings of
                        Inl e \<Rightarrow> Inl (Threw e, run1)
                      | Inr target \<Rightarrow>
                          (case map_of (recipes options) (recipe request0) of
                             None \<Rightarrow> Inl (Threw TypeError, run1)
                           | Some root \<Rightarrow>
                               (case planning (recipes options) root of
                                  Inl e \<Rightarrow> Inl (Threw e, run1)
                                | Inr plan \<Rightarrow> Inr (m, target, plan, run1))))))"

subsection \<open>Execution (lines 74 to 127)\<close>

text \<open>
  The \<^verbatim>\<open>for (const recipe of plan)\<close> loop. The events of a recipe are forwarded as
  they are; an error of its computation is caught, answered with the controller's
  \<^verbatim>\<open>fail\<close> and ends the run; after the controller's \<^verbatim>\<open>succeed\<close> the label is stored
  only when the controller is done.
\<close>

fun execute ::
  "'s Controller \<Rightarrow> any jsmap \<Rightarrow> any \<Rightarrow> 's Recipe list \<Rightarrow> Run \<Rightarrow> outcome \<times> Run" where
  "execute ctl m target [] run = (Finished, run)"
| "execute ctl m target (r # plan) run =
     (case c_begin ctl [name r] (c_new ctl [name r]) of
        (begun, c1) \<Rightarrow>
          (case recipe_preserve r target (labels run) (get_any m (name r)) c1 of
             ((yielded, Inl error), c2) \<Rightarrow>
               (case c_fail ctl [name r] error c2 of
                  (failed, c3) \<Rightarrow>
                    (Halted_on_fail,
                     run\<lparr>executed := executed run @ [name r],
                         events := events run @ begun @ yielded @ failed\<rparr>))
           | ((yielded, Inr label), c2) \<Rightarrow>
               (case c_succeed ctl [name r] label c2 of
                  (succeeded, c3) \<Rightarrow>
                    if c_state ctl c3 \<noteq> Done
                    then (Halted_not_done,
                          run\<lparr>executed := executed run @ [name r],
                              events := events run @ begun @ yielded @ succeeded\<rparr>)
                    else execute ctl m target plan
                           (run\<lparr>executed := executed run @ [name r],
                                events := events run @ begun @ yielded @ succeeded,
                                labels := AList.update (name r) label (labels run)\<rparr>))))"

subsection \<open>preserve\<close>

definition preserve :: "'s Controller \<Rightarrow> 's PreserveOptions \<Rightarrow> outcome \<times> Run" where
  "preserve ctl options =
     (case prepare options of
        Inl stopped \<Rightarrow> stopped
      | Inr (m, target, plan, run) \<Rightarrow> execute ctl m target plan run)"

subsection \<open>What the executor expects of a controller\<close>



subsection \<open>Recipe graphs\<close>

text \<open>
  The names the planner can reach from a name: a registered recipe leads to each of the
  names in its dependency list.
\<close>

inductive reaches :: "'s Recipe jsmap \<Rightarrow> name \<Rightarrow> name \<Rightarrow> bool" for rs :: "'s Recipe jsmap" and a :: name where
  here: "reaches rs a a"
| step: "reaches rs a b \<Longrightarrow> map_of rs b = Some r \<Longrightarrow> d \<in> set (dependencies r) \<Longrightarrow> reaches rs a d"

code_pred reaches .

text \<open>A registry is keyed by name when every recipe sits under its own name.\<close>

definition keyed_by_name :: "'s Recipe jsmap \<Rightarrow> bool" where
  "keyed_by_name rs = list_all (\<lambda>(k, r). name r = k) rs"

text \<open>It is closed when every name that a recipe lists as a dependency is registered.\<close>

definition closed :: "'s Recipe jsmap \<Rightarrow> bool" where
  "closed rs = (listed rs \<subseteq> set (keys rs))"

text \<open>It is duplicate free when no dependency list names a recipe twice.\<close>

definition duplicate_free :: "'s Recipe jsmap \<Rightarrow> bool" where
  "duplicate_free rs = list_all (\<lambda>(k, r). distinct (dependencies r)) rs"

subsection \<open>A controller and recipes for the concrete scenarios\<close>

text \<open>
  Modelled from the spec: a step controller as the spec's section 6 and the comment on
  line 119 describe one. \<^verbatim>\<open>begin\<close> yields the Begin event and makes the controller
  active; \<^verbatim>\<open>succeed\<close> and \<^verbatim>\<open>fail\<close> do something only in the active state, where they
  yield the Succeed or the Fail event and leave the controller done or in an error
  state. The theorems about the executor hold for every controller; this one runs the
  scenarios.
\<close>

definition simple_controller :: "State Controller" where
  "simple_controller =
     \<lparr>c_new = (\<lambda>scope. OtherState 0),
      c_begin = (\<lambda>scope s. ([Begin scope], Active)),
      c_succeed = (\<lambda>scope label s. if s = Active then ([Succeed scope label], Done) else ([], s)),
      c_fail = (\<lambda>scope error s. if s = Active then ([Fail scope error], OtherState 1) else ([], s)),
      c_state = (\<lambda>s. s)\<rparr>"

text \<open>A recipe that logs once and returns a label.\<close>

definition plain_recipe :: "name \<Rightarrow> name list \<Rightarrow> nat \<Rightarrow> State Recipe" where
  "plain_recipe nm deps v =
     \<lparr>name = nm, dependencies = deps,
      recipe_preserve = (\<lambda>target lbls stgs c. (([Log [nm] ''working''], Inr (Value v)), c))\<rparr>"

text \<open>A recipe whose computation raises.\<close>

definition raising_recipe :: "name \<Rightarrow> name list \<Rightarrow> State Recipe" where
  "raising_recipe nm deps =
     \<lparr>name = nm, dependencies = deps,
      recipe_preserve = (\<lambda>target lbls stgs c. (([], Inl (Raised (Value 13))), c))\<rparr>"

text \<open>
  A recipe that returns a label but leaves its controller in an error state, as a
  failed step does.
\<close>

definition untidy_recipe :: "name \<Rightarrow> name list \<Rightarrow> nat \<Rightarrow> State Recipe" where
  "untidy_recipe nm deps v =
     \<lparr>name = nm, dependencies = deps,
      recipe_preserve = (\<lambda>target lbls stgs c. (([], Inr (Value v)), OtherState 1))\<rparr>"

definition the_loader :: Loader where
  "the_loader = \<lparr>load = (\<lambda>stgs. Inr (Value 100))\<rparr>"

definition broken_loader :: Loader where
  "broken_loader = \<lparr>load = (\<lambda>stgs. Inl (Raised (Value 7)))\<rparr>"

text \<open>The diamond: a depends on b and c, and b and c both depend on d.\<close>

definition diamond :: "State Recipe jsmap" where
  "diamond =
     [(''a'', plain_recipe ''a'' [''b'', ''c''] 1),
      (''b'', plain_recipe ''b'' [''d''] 2),
      (''c'', plain_recipe ''c'' [''d''] 3),
      (''d'', plain_recipe ''d'' [] 4)]"

text \<open>The spec's scenario: B depends on A.\<close>

definition chain :: "State Recipe jsmap" where
  "chain = [(''A'', plain_recipe ''A'' [] 1), (''B'', plain_recipe ''B'' [''A''] 2)]"

text \<open>An acyclic graph whose root lists the same dependency twice.\<close>

definition twice_listed :: "State Recipe jsmap" where
  "twice_listed =
     [(''a'', plain_recipe ''a'' [''d'', ''d''] 1), (''d'', plain_recipe ''d'' [] 4)]"

text \<open>A root whose only dependency is not registered.\<close>

definition dangling :: "State Recipe jsmap" where
  "dangling = [(''a'', plain_recipe ''a'' [''zz''] 1)]"

text \<open>Two recipes that depend on each other.\<close>

definition mutual :: "State Recipe jsmap" where
  "mutual = [(''a'', plain_recipe ''a'' [''b''] 1), (''b'', plain_recipe ''b'' [''a''] 2)]"

text \<open>
  A relay of three recipes, C on B on A, in which the one in the middle leaves its
  controller in an error state, and the same relay with a middle that raises.
\<close>

definition relay_untidy :: "State Recipe jsmap" where
  "relay_untidy =
     [(''A'', plain_recipe ''A'' [] 1), (''B'', untidy_recipe ''B'' [''A''] 2),
      (''C'', plain_recipe ''C'' [''B''] 3)]"

definition relay_raising :: "State Recipe jsmap" where
  "relay_raising =
     [(''A'', plain_recipe ''A'' [] 1), (''B'', raising_recipe ''B'' [''A'']),
      (''C'', plain_recipe ''C'' [''B''] 3)]"

text \<open>
  Two recipes that depend on each other, the second of which raises; and two that
  depend on each other, the root listing an unregistered name first.
\<close>

definition mutual_raising :: "State Recipe jsmap" where
  "mutual_raising = [(''a'', plain_recipe ''a'' [''b''] 1), (''b'', raising_recipe ''b'' [''a''])]"

definition mutual_dangling :: "State Recipe jsmap" where
  "mutual_dangling =
     [(''a'', plain_recipe ''a'' [''zz'', ''b''] 1), (''b'', plain_recipe ''b'' [''a''] 2)]"

text \<open>A recipe that takes its controller to \<^verbatim>\<open>Done\<close> by itself.\<close>

definition finishing_recipe :: "name \<Rightarrow> name list \<Rightarrow> nat \<Rightarrow> State Recipe" where
  "finishing_recipe nm deps v =
     \<lparr>name = nm, dependencies = deps,
      recipe_preserve = (\<lambda>target lbls stgs c. (([Log [nm] ''working''], Inr (Value v)), Done))\<rparr>"

definition options_of :: "name \<Rightarrow> State Recipe jsmap \<Rightarrow> State PreserveOptions" where
  "options_of root rs =
     \<lparr>request = \<lparr>loader = ''L'', recipe = root, settings = None\<rparr>,
      loaders = [(''L'', the_loader)],
      recipes = rs\<rparr>"

section \<open>Facts about the planner\<close>

lemma assertRecipeExists_Inr: "(assertRecipeExists nm rs = Inr u) = has rs nm"
  by (simp add: assertRecipeExists_def assertModuleExists_def)

lemma has_map_of: "has rs k = (map_of rs k \<noteq> None)"
  by (simp add: has_def keys_def map_of_eq_None_iff)

lemma plan_loop_trace:
  "plan_loop rs visited queue plan = Inr result \<Longrightarrow>
   \<exists>pushed. result = rev (map (\<lambda>n. the (map_of rs n)) (queue @ pushed)) @ plan \<and>
     (\<forall>n \<in> set (queue @ pushed). \<exists>r. map_of rs n = Some r \<and>
        (\<forall>d \<in> set (dependencies r). d \<in> visited \<or> d \<in> set pushed))"
proof (induction rs visited queue plan rule: plan_loop.induct)
  case (1 rs visited plan)
  then show ?case by simp
next
  case (2 rs visited q queue plan)
  from "2.prems" obtain current where cur: "map_of rs q = Some current"
    by (auto split: option.splits)
  from "2.prems" cur obtain ok where ok: "assertRecipeExists (name current) rs = Inr ok"
    by (auto split: sum.splits)
  define unvisited where "unvisited = filter (\<lambda>dependency. dependency \<notin> visited) (dependencies current)"
  have rec: "plan_loop rs (visited \<union> set unvisited) (queue @ unvisited) (current # plan) = Inr result"
    using "2.prems" cur ok by (simp add: unvisited_def enqueue_eq)
  have "\<exists>pushed. result = rev (map (\<lambda>n. the (map_of rs n)) ((queue @ unvisited) @ pushed)) @ current # plan \<and>
     (\<forall>n \<in> set ((queue @ unvisited) @ pushed). \<exists>r. map_of rs n = Some r \<and>
        (\<forall>d \<in> set (dependencies r). d \<in> visited \<union> set unvisited \<or> d \<in> set pushed))"
    by (rule "2.IH" [OF cur ok unvisited_def _ rec]) (simp add: enqueue_eq)
  then obtain pushed where res: "result = rev (map (\<lambda>n. the (map_of rs n)) ((queue @ unvisited) @ pushed)) @ current # plan"
    and deps: "\<forall>n \<in> set ((queue @ unvisited) @ pushed). \<exists>r. map_of rs n = Some r \<and>
        (\<forall>d \<in> set (dependencies r). d \<in> visited \<union> set unvisited \<or> d \<in> set pushed)"
    by blast
  have "result = rev (map (\<lambda>n. the (map_of rs n)) ((q # queue) @ unvisited @ pushed)) @ plan"
    using res cur by simp
  moreover have "\<forall>n \<in> set ((q # queue) @ unvisited @ pushed). \<exists>r. map_of rs n = Some r \<and>
        (\<forall>d \<in> set (dependencies r). d \<in> visited \<or> d \<in> set (unvisited @ pushed))"
  proof
    fix n assume n: "n \<in> set ((q # queue) @ unvisited @ pushed)"
    show "\<exists>r. map_of rs n = Some r \<and> (\<forall>d \<in> set (dependencies r). d \<in> visited \<or> d \<in> set (unvisited @ pushed))"
    proof (cases "n \<in> set ((queue @ unvisited) @ pushed)")
      case True
      with deps show ?thesis by fastforce
    next
      case False
      with n have "n = q" by auto
      with cur show ?thesis by (auto simp: unvisited_def)
    qed
  qed
  ultimately show ?case by blast
qed

lemma keyed_by_name_has:
  "keyed_by_name rs \<Longrightarrow> map_of rs k = Some r \<Longrightarrow> name r = k \<and> has rs (name r)"
proof -
  assume k: "keyed_by_name rs" and m: "map_of rs k = Some r"
  from m have "(k, r) \<in> set rs" by (rule map_of_SomeD)
  with k have "name r = k" by (auto simp: keyed_by_name_def list_all_iff)
  with m show ?thesis by (simp add: has_map_of)
qed

lemma plan_loop_TypeError:
  "keyed_by_name rs \<Longrightarrow> plan_loop rs visited queue plan = Inl e \<Longrightarrow> e = TypeError"
proof (induction rs visited queue plan rule: plan_loop.induct)
  case (1 rs visited plan)
  then show ?case by simp
next
  case (2 rs visited q queue plan)
  show ?case
  proof (cases "map_of rs q")
    case None
    with "2.prems" show ?thesis by simp
  next
    case (Some current)
    have "has rs (name current)"
      using keyed_by_name_has [OF "2.prems"(1) Some] by blast
    then have ok: "assertRecipeExists (name current) rs = Inr ()"
      by (simp add: assertRecipeExists_Inr)
    define unvisited where "unvisited = filter (\<lambda>dependency. dependency \<notin> visited) (dependencies current)"
    have rec: "plan_loop rs (visited \<union> set unvisited) (queue @ unvisited) (current # plan) = Inl e"
      using "2.prems" Some ok by (simp add: unvisited_def enqueue_eq)
    show ?thesis
      by (rule "2.IH" [OF Some ok unvisited_def _ "2.prems"(1) rec]) (simp add: enqueue_eq)
  qed
qed

lemma planning_trace:
  assumes "planning rs root = Inr plan"
  shows "\<exists>pushed. plan = rev (map (\<lambda>n. the (map_of rs n)) (name root # pushed)) \<and>
           (\<forall>n \<in> set (name root # pushed).
              \<exists>r. map_of rs n = Some r \<and> set (dependencies r) \<subseteq> set pushed)"
proof -
  from plan_loop_trace [OF assms [unfolded planning_def]]
  obtain pushed where "plan = rev (map (\<lambda>n. the (map_of rs n)) ([name root] @ pushed)) @ []"
    and "\<forall>n \<in> set ([name root] @ pushed). \<exists>r. map_of rs n = Some r \<and>
        (\<forall>d \<in> set (dependencies r). d \<in> {} \<or> d \<in> set pushed)"
    by blast
  then have "plan = rev (map (\<lambda>n. the (map_of rs n)) (name root # pushed))"
    and "\<forall>n \<in> set (name root # pushed).
           \<exists>r. map_of rs n = Some r \<and> set (dependencies r) \<subseteq> set pushed"
    by (simp, fastforce)
  then show ?thesis by blast
qed

lemma reaches_dequeued:
  assumes "reaches rs a b" and "a \<in> D"
    and "\<And>n. n \<in> D \<Longrightarrow> \<exists>r. map_of rs n = Some r \<and> set (dependencies r) \<subseteq> D"
  shows "b \<in> D"
  using assms(1)
proof (induction rule: reaches.induct)
  case here
  show ?case by (rule assms(2))
next
  case (step b r d)
  with assms(3) [of b] show ?case by auto
qed

lemma planning_last:
  assumes "planning rs root = Inr plan"
  shows "plan \<noteq> [] \<and> map_of rs (name root) = Some (last plan)"
proof -
  from planning_trace [OF assms] obtain pushed where
    p: "plan = rev (map (\<lambda>n. the (map_of rs n)) (name root # pushed))"
    and r: "\<forall>n \<in> set (name root # pushed).
           \<exists>r. map_of rs n = Some r \<and> set (dependencies r) \<subseteq> set pushed"
    by blast
  from r obtain r0 where "map_of rs (name root) = Some r0" by auto
  with p show ?thesis by simp
qed

section \<open>Facts about the executor\<close>

lemma execute_halts_fail:
  assumes "c_begin ctl [name r] (c_new ctl [name r]) = (begun, c1)"
    and "recipe_preserve r target (labels run) (get_any m (name r)) c1 = ((yielded, Inl error), c2)"
    and "c_fail ctl [name r] error c2 = (failed, c3)"
  shows "execute ctl m target (r # plan) run =
         (Halted_on_fail, run\<lparr>executed := executed run @ [name r],
                                events := events run @ begun @ yielded @ failed\<rparr>)"
  using assms by simp

lemma execute_halts_not_done:
  assumes "c_begin ctl [name r] (c_new ctl [name r]) = (begun, c1)"
    and "recipe_preserve r target (labels run) (get_any m (name r)) c1 = ((yielded, Inr label), c2)"
    and "c_succeed ctl [name r] label c2 = (succeeded, c3)"
    and "c_state ctl c3 \<noteq> Done"
  shows "execute ctl m target (r # plan) run =
         (Halted_not_done, run\<lparr>executed := executed run @ [name r],
                                 events := events run @ begun @ yielded @ succeeded\<rparr>)"
  using assms by simp

lemma execute_goes_on:
  assumes "c_begin ctl [name r] (c_new ctl [name r]) = (begun, c1)"
    and "recipe_preserve r target (labels run) (get_any m (name r)) c1 = ((yielded, Inr label), c2)"
    and "c_succeed ctl [name r] label c2 = (succeeded, c3)"
    and "c_state ctl c3 = Done"
  shows "execute ctl m target (r # plan) run =
         execute ctl m target plan
           (run\<lparr>executed := executed run @ [name r],
                events := events run @ begun @ yielded @ succeeded,
                labels := AList.update (name r) label (labels run)\<rparr>)"
  using assms by simp

declare execute.simps(2) [simp del]

lemma recipe_cases:
  obtains (halts_fail) begun c1 yielded error c2 failed c3 where
      "c_begin ctl [name r] (c_new ctl [name r]) = (begun, c1)"
      "recipe_preserve r target lbls (get_any m (name r)) c1 = ((yielded, Inl error), c2)"
      "c_fail ctl [name r] error c2 = (failed, c3)"
  | (halts_not_done) begun c1 yielded label c2 succeeded c3 where
      "c_begin ctl [name r] (c_new ctl [name r]) = (begun, c1)"
      "recipe_preserve r target lbls (get_any m (name r)) c1 = ((yielded, Inr label), c2)"
      "c_succeed ctl [name r] label c2 = (succeeded, c3)"
      "c_state ctl c3 \<noteq> Done"
  | (goes_on) begun c1 yielded label c2 succeeded c3 where
      "c_begin ctl [name r] (c_new ctl [name r]) = (begun, c1)"
      "recipe_preserve r target lbls (get_any m (name r)) c1 = ((yielded, Inr label), c2)"
      "c_succeed ctl [name r] label c2 = (succeeded, c3)"
      "c_state ctl c3 = Done"
proof -
  obtain begun c1 where b: "c_begin ctl [name r] (c_new ctl [name r]) = (begun, c1)"
    by (cases "c_begin ctl [name r] (c_new ctl [name r])")
  obtain yielded res c2 where p:
    "recipe_preserve r target lbls (get_any m (name r)) c1 = ((yielded, res), c2)"
    by (cases "recipe_preserve r target lbls (get_any m (name r)) c1") auto
  show thesis
  proof (cases res)
    case (Inl error)
    obtain failed c3 where f: "c_fail ctl [name r] error c2 = (failed, c3)"
      by (cases "c_fail ctl [name r] error c2")
    show thesis
      by (rule halts_fail [OF b p [unfolded Inl] f])
  next
    case (Inr label)
    obtain succeeded c3 where s: "c_succeed ctl [name r] label c2 = (succeeded, c3)"
      by (cases "c_succeed ctl [name r] label c2")
    show thesis
    proof (cases "c_state ctl c3 = Done")
      case True
      show thesis
        by (rule goes_on [OF b p [unfolded Inr] s True])
    next
      case False
      show thesis
        by (rule halts_not_done [OF b p [unfolded Inr] s False])
    qed
  qed
qed

lemma execute_append_Finished:
  "execute ctl m target pre run = (Finished, run') \<Longrightarrow>
   execute ctl m target (pre @ post) run = execute ctl m target post run'"
proof (induction pre arbitrary: run)
  case Nil
  then show ?case by simp
next
  case (Cons r pre)
  show ?case
  proof (cases rule: recipe_cases [of ctl r target "labels run" m])
    case (halts_fail begun c1 yielded error c2 failed c3)
    from Cons.prems show ?thesis
      by (simp add: execute_halts_fail [OF halts_fail])
  next
    case (halts_not_done begun c1 yielded label c2 succeeded c3)
    from Cons.prems show ?thesis
      by (simp add: execute_halts_not_done [OF halts_not_done])
  next
    case (goes_on begun c1 yielded label c2 succeeded c3)
    from Cons.prems show ?thesis
      by (simp add: execute_goes_on [OF goes_on] Cons.IH)
  qed
qed

lemma execute_append_halted:
  "execute ctl m target pre run = (oc, run') \<Longrightarrow> oc \<noteq> Finished \<Longrightarrow>
   execute ctl m target (pre @ post) run = (oc, run')"
proof (induction pre arbitrary: run)
  case Nil
  then show ?case by simp
next
  case (Cons r pre)
  show ?case
  proof (cases rule: recipe_cases [of ctl r target "labels run" m])
    case (halts_fail begun c1 yielded error c2 failed c3)
    from Cons.prems show ?thesis
      by (simp add: execute_halts_fail [OF halts_fail])
  next
    case (halts_not_done begun c1 yielded label c2 succeeded c3)
    from Cons.prems show ?thesis
      by (simp add: execute_halts_not_done [OF halts_not_done])
  next
    case (goes_on begun c1 yielded label c2 succeeded c3)
    from Cons.prems show ?thesis
      by (simp add: execute_goes_on [OF goes_on] Cons.IH)
  qed
qed

lemma keys_update: "set (keys (AList.update k v al)) = insert k (set (keys al))"
  by (induction al) (auto simp: keys_def)

lemma distinct_keys_update: "distinct (keys al) \<Longrightarrow> distinct (keys (AList.update k v al))"
  by (simp add: keys_def distinct_update)

lemma execute_frame:
  "execute ctl m target plan run = (oc, run') \<Longrightarrow> req run' = req run \<and> loads run' = loads run"
proof (induction plan arbitrary: run)
  case Nil
  then show ?case by simp
next
  case (Cons r plan)
  show ?case
  proof (cases rule: recipe_cases [of ctl r target "labels run" m])
    case (halts_fail begun c1 yielded error c2 failed c3)
    from Cons.prems show ?thesis
      by (auto simp: execute_halts_fail [OF halts_fail])
  next
    case (halts_not_done begun c1 yielded label c2 succeeded c3)
    from Cons.prems show ?thesis
      by (auto simp: execute_halts_not_done [OF halts_not_done])
  next
    case (goes_on begun c1 yielded label c2 succeeded c3)
    from Cons.prems Cons.IH [of _] show ?thesis
      by (simp add: execute_goes_on [OF goes_on])
  qed
qed

lemma execute_Finished:
  "execute ctl m target plan run = (Finished, run') \<Longrightarrow>
   executed run' = executed run @ map name plan \<and>
   set (keys (labels run')) = set (keys (labels run)) \<union> name ` set plan \<and>
   (distinct (keys (labels run)) \<longrightarrow> distinct (keys (labels run')))"
proof (induction plan arbitrary: run)
  case Nil
  then show ?case by simp
next
  case (Cons r plan)
  show ?case
  proof (cases rule: recipe_cases [of ctl r target "labels run" m])
    case (halts_fail begun c1 yielded error c2 failed c3)
    from Cons.prems show ?thesis
      by (simp add: execute_halts_fail [OF halts_fail])
  next
    case (halts_not_done begun c1 yielded label c2 succeeded c3)
    from Cons.prems show ?thesis
      by (simp add: execute_halts_not_done [OF halts_not_done])
  next
    case (goes_on begun c1 yielded label c2 succeeded c3)
    from Cons.prems have
      "execute ctl m target plan
         (run\<lparr>executed := executed run @ [name r],
              events := events run @ begun @ yielded @ succeeded,
              labels := AList.update (name r) label (labels run)\<rparr>) = (Finished, run')"
      by (simp add: execute_goes_on [OF goes_on])
    from Cons.IH [OF this] show ?thesis
      by (simp add: keys_update distinct_keys_update)
  qed
qed


lemma prepare_Inr:
  assumes "prepare options = Inr (m, target, plan, run)"
  shows "events run = [] \<and> executed run = [] \<and> labels run = [] \<and>
         (\<exists>root. map_of (recipes options) (recipe (request options)) = Some root \<and>
                  planning (recipes options) root = Inr plan)"
  using assms
  by (auto simp: prepare_def Let_def split: sum.splits option.splits)

lemma preserve_Inr:
  "prepare options = Inr (m, target, plan, run) \<Longrightarrow>
   preserve ctl options = execute ctl m target plan run"
  by (simp add: preserve_def)

lemma assertLoaderExists_Inr: "map_of ls k = Some ld \<Longrightarrow> assertLoaderExists k ls = Inr ()"
  by (simp add: assertLoaderExists_def assertModuleExists_def has_map_of)

section \<open>Further facts about planning and execution\<close>

lemma planning_reaches:
  assumes "planning rs root = Inr plan" and "reaches rs (name root) n"
  shows "map_of rs n \<noteq> None"
proof -
  from planning_trace [OF assms(1)] obtain pushed where
    r: "\<forall>n \<in> set (name root # pushed).
           \<exists>r. map_of rs n = Some r \<and> set (dependencies r) \<subseteq> set pushed"
    by blast
  have "n \<in> set (name root # pushed)"
  proof (rule reaches_dequeued [OF assms(2)])
    show "name root \<in> set (name root # pushed)" by simp
  next
    fix k assume "k \<in> set (name root # pushed)"
    with r show "\<exists>r. map_of rs k = Some r \<and> set (dependencies r) \<subseteq> set (name root # pushed)"
      by fastforce
  qed
  with r show ?thesis by fastforce
qed

lemma plan_loop_registered:
  "map_of rs q = Some current \<Longrightarrow> has rs (name current) \<Longrightarrow>
   plan_loop rs visited (q # queue) plan =
     plan_loop rs (visited \<union> set (filter (\<lambda>d. d \<notin> visited) (dependencies current)))
       (queue @ filter (\<lambda>d. d \<notin> visited) (dependencies current)) (current # plan)"
  by (simp add: assertRecipeExists_def assertModuleExists_def enqueue_eq)

lemma count_list_rev: "count_list (rev xs) x = count_list xs x"
  by (induction xs) (simp_all add: count_list_append)

lemma count_list_map_le: "count_list xs x \<le> count_list (map f xs) (f x)"
  by (induction xs) auto

lemma count_list_map_ge: "n \<in> set ns \<Longrightarrow> 1 \<le> count_list (map f ns) (f n)"
  by (induction ns) auto

lemma prepare_Inl:
  "prepare options = Inl (oc, run) \<Longrightarrow>
   req run = (request options)\<lparr>settings := Some (settings_after (request options))\<rparr>"
  by (auto simp: prepare_def Let_def split: sum.splits option.splits)

lemma prepare_Inr_req:
  "prepare options = Inr (m, target, plan, run) \<Longrightarrow>
   req run = (request options)\<lparr>settings := Some (settings_after (request options))\<rparr> \<and>
   m = settings_after (request options)"
  by (auto simp: prepare_def Let_def split: sum.splits option.splits)

lemma prepare_Inr_run:
  assumes "prepare options = Inr (m, target, plan, run)"
  shows "events run = []" "executed run = []" "labels run = []"
  using prepare_Inr [OF assms] by simp_all

text \<open>
  On a closed registry keyed by name the planner returns a plan, whatever the graph
  looks like.
\<close>

lemma planning_succeeds_aux:
  "keyed_by_name rs \<Longrightarrow> listed rs \<subseteq> set (keys rs) \<Longrightarrow> set queue \<subseteq> set (keys rs) \<Longrightarrow>
   \<exists>result. plan_loop rs visited queue plan = Inr result"
proof (induction rs visited queue plan rule: plan_loop.induct)
  case (1 rs visited plan)
  show ?case by simp
next
  case (2 rs visited q queue plan)
  from "2.prems"(3) have "has rs q" by (simp add: has_def)
  then obtain current where cur: "map_of rs q = Some current"
    by (auto simp: has_map_of)
  from keyed_by_name_has [OF "2.prems"(1) cur] have h: "has rs (name current)" by blast
  then have ok: "assertRecipeExists (name current) rs = Inr ()"
    by (simp add: assertRecipeExists_Inr)
  define unvisited where "unvisited = filter (\<lambda>dependency. dependency \<notin> visited) (dependencies current)"
  have "set unvisited \<subseteq> listed rs"
    using map_of_listed [OF cur] by (auto simp: unvisited_def)
  with "2.prems"(2,3) have sub: "set (queue @ unvisited) \<subseteq> set (keys rs)" by auto
  have "\<exists>result. plan_loop rs (visited \<union> set unvisited) (queue @ unvisited) (current # plan) = Inr result"
    by (rule "2.IH" [OF cur ok unvisited_def _ "2.prems"(1,2) sub]) (simp add: enqueue_eq)
  then show ?case
    using cur ok by (simp add: unvisited_def enqueue_eq)
qed

lemma planning_succeeds:
  assumes "keyed_by_name rs" and "listed rs \<subseteq> set (keys rs)" and "map_of rs (name root) = Some root"
  shows "\<exists>plan. planning rs root = Inr plan"
proof -
  from assms(3) have "set [name root] \<subseteq> set (keys rs)"
    using has_map_of [of rs "name root"] by (simp add: has_def)
  from planning_succeeds_aux [OF assms(1,2) this] show ?thesis
    by (simp add: planning_def)
qed

text \<open>
  What the visited set does achieve. In a duplicate free registry keyed by name, when no
  recipe that the planner reaches lists the root (which an acyclic graph guarantees),
  the plan names exactly the recipes the planner reaches from the root, each once.
\<close>

lemma duplicate_free_map_of:
  "duplicate_free rs \<Longrightarrow> map_of rs k = Some r \<Longrightarrow> distinct (dependencies r)"
  by (auto simp: duplicate_free_def list_all_iff dest!: map_of_SomeD)

lemma plan_loop_once:
  "plan_loop rs visited queue plan = Inr result \<Longrightarrow> \<forall>q \<in> set queue. reaches rs a q \<Longrightarrow>
   duplicate_free rs \<Longrightarrow>
   \<exists>pushed. result = rev (map (\<lambda>n. the (map_of rs n)) (queue @ pushed)) @ plan \<and>
     distinct pushed \<and> set pushed \<inter> visited = {} \<and>
     (\<forall>n \<in> set (queue @ pushed). \<exists>r. map_of rs n = Some r \<and>
        (\<forall>d \<in> set (dependencies r). d \<in> visited \<or> d \<in> set pushed)) \<and>
     (\<forall>n \<in> set pushed. \<exists>q r. reaches rs a q \<and> map_of rs q = Some r \<and> n \<in> set (dependencies r))"
proof (induction rs visited queue plan rule: plan_loop.induct)
  case (1 rs visited plan)
  then show ?case by simp
next
  case (2 rs visited q queue plan)
  from "2.prems"(1) obtain current where cur: "map_of rs q = Some current"
    by (auto split: option.splits)
  from "2.prems"(1) cur obtain ok where ok: "assertRecipeExists (name current) rs = Inr ok"
    by (auto split: sum.splits)
  define unvisited where "unvisited = filter (\<lambda>dependency. dependency \<notin> visited) (dependencies current)"
  have rec: "plan_loop rs (visited \<union> set unvisited) (queue @ unvisited) (current # plan) = Inr result"
    using "2.prems"(1) cur ok by (simp add: unvisited_def enqueue_eq)
  have rq: "reaches rs a q" using "2.prems"(2) by simp
  have ru: "\<forall>n \<in> set unvisited. reaches rs a n"
    using reaches.step [OF rq cur] by (simp add: unvisited_def)
  have du: "distinct unvisited"
    using duplicate_free_map_of [OF "2.prems"(3) cur] by (simp add: unvisited_def)
  have "\<forall>q \<in> set (queue @ unvisited). reaches rs a q"
    using "2.prems"(2) ru by auto
  with "2.IH" [OF cur ok unvisited_def _ rec _ "2.prems"(3)]
  have "\<exists>pushed. result = rev (map (\<lambda>n. the (map_of rs n)) ((queue @ unvisited) @ pushed)) @ current # plan \<and>
     distinct pushed \<and> set pushed \<inter> (visited \<union> set unvisited) = {} \<and>
     (\<forall>n \<in> set ((queue @ unvisited) @ pushed). \<exists>r. map_of rs n = Some r \<and>
        (\<forall>d \<in> set (dependencies r). d \<in> visited \<union> set unvisited \<or> d \<in> set pushed)) \<and>
     (\<forall>n \<in> set pushed. \<exists>q r. reaches rs a q \<and> map_of rs q = Some r \<and> n \<in> set (dependencies r))"
    by (simp add: enqueue_eq)
  then obtain pushed where
    res: "result = rev (map (\<lambda>n. the (map_of rs n)) ((queue @ unvisited) @ pushed)) @ current # plan"
    and dp: "distinct pushed" and dis: "set pushed \<inter> (visited \<union> set unvisited) = {}"
    and deps: "\<forall>n \<in> set ((queue @ unvisited) @ pushed). \<exists>r. map_of rs n = Some r \<and>
        (\<forall>d \<in> set (dependencies r). d \<in> visited \<union> set unvisited \<or> d \<in> set pushed)"
    and orig: "\<forall>n \<in> set pushed. \<exists>q r. reaches rs a q \<and> map_of rs q = Some r \<and> n \<in> set (dependencies r)"
    by blast
  have a1: "result = rev (map (\<lambda>n. the (map_of rs n)) ((q # queue) @ unvisited @ pushed)) @ plan"
    using res cur by simp
  have a2: "distinct (unvisited @ pushed)"
    using du dp dis by auto
  have a3: "set (unvisited @ pushed) \<inter> visited = {}"
    using dis by (auto simp: unvisited_def)
  have a4: "\<forall>n \<in> set ((q # queue) @ unvisited @ pushed). \<exists>r. map_of rs n = Some r \<and>
        (\<forall>d \<in> set (dependencies r). d \<in> visited \<or> d \<in> set (unvisited @ pushed))"
  proof
    fix n assume n: "n \<in> set ((q # queue) @ unvisited @ pushed)"
    show "\<exists>r. map_of rs n = Some r \<and> (\<forall>d \<in> set (dependencies r). d \<in> visited \<or> d \<in> set (unvisited @ pushed))"
    proof (cases "n \<in> set ((queue @ unvisited) @ pushed)")
      case True
      with deps show ?thesis by fastforce
    next
      case False
      with n have "n = q" by auto
      with cur show ?thesis by (auto simp: unvisited_def)
    qed
  qed
  have a5: "\<forall>n \<in> set (unvisited @ pushed). \<exists>q r. reaches rs a q \<and> map_of rs q = Some r \<and> n \<in> set (dependencies r)"
  proof
    fix n assume "n \<in> set (unvisited @ pushed)"
    then consider "n \<in> set unvisited" | "n \<in> set pushed" by auto
    then show "\<exists>q r. reaches rs a q \<and> map_of rs q = Some r \<and> n \<in> set (dependencies r)"
    proof cases
      case 1
      then have "n \<in> set (dependencies current)" by (simp add: unvisited_def)
      with rq cur show ?thesis by blast
    next
      case 2
      with orig show ?thesis by blast
    qed
  qed
  from a1 a2 a3 a4 a5 show ?case by blast
qed

lemma plan_each_once:
  assumes "keyed_by_name rs" and "duplicate_free rs"
    and "planning rs root = Inr plan"
    and "\<forall>b r. reaches rs (name root) b \<longrightarrow> map_of rs b = Some r \<longrightarrow> name root \<notin> set (dependencies r)"
  shows "distinct (map name plan) \<and> set (map name plan) = {n. reaches rs (name root) n}"
proof -
  have "\<forall>q \<in> set [name root]. reaches rs (name root) q"
    by (simp add: reaches.here)
  from plan_loop_once [OF assms(3) [unfolded planning_def] this assms(2)]
  obtain pushed where
    res: "plan = rev (map (\<lambda>n. the (map_of rs n)) (name root # pushed))"
    and dp: "distinct pushed"
    and deps: "\<forall>n \<in> set (name root # pushed). \<exists>r. map_of rs n = Some r \<and>
        (\<forall>d \<in> set (dependencies r). d \<in> set pushed)"
    and orig: "\<forall>n \<in> set pushed. \<exists>q r. reaches rs (name root) q \<and> map_of rs q = Some r \<and> n \<in> set (dependencies r)"
    by auto
  have nm: "name (the (map_of rs n)) = n" if "n \<in> set (name root # pushed)" for n
  proof -
    from deps that obtain r where "map_of rs n = Some r" by blast
    with keyed_by_name_has [OF assms(1) this] show ?thesis by simp
  qed
  have "map (\<lambda>n. name (the (map_of rs n))) (name root # pushed) = name root # pushed"
    by (rule map_idI) (rule nm)
  then have names: "map name plan = rev (name root # pushed)"
    unfolding res rev_map [symmetric] map_map comp_def by simp
  have "name root \<notin> set pushed"
    using orig assms(4) by blast
  with dp have d: "distinct (map name plan)"
    by (simp add: names)
  have r1: "set (name root # pushed) \<subseteq> {n. reaches rs (name root) n}"
  proof
    fix n assume "n \<in> set (name root # pushed)"
    then consider "n = name root" | "n \<in> set pushed" by auto
    then show "n \<in> {n. reaches rs (name root) n}"
    proof cases
      case 1
      then show ?thesis by (simp add: reaches.here)
    next
      case 2
      with orig obtain q r where "reaches rs (name root) q" "map_of rs q = Some r" "n \<in> set (dependencies r)"
        by blast
      then show ?thesis by (simp add: reaches.step)
    qed
  qed
  have r2: "{n. reaches rs (name root) n} \<subseteq> set (name root # pushed)"
  proof
    fix n assume "n \<in> {n. reaches rs (name root) n}"
    then have r: "reaches rs (name root) n" by simp
    show "n \<in> set (name root # pushed)"
    proof (rule reaches_dequeued [OF r])
      show "name root \<in> set (name root # pushed)" by simp
    next
      fix k assume "k \<in> set (name root # pushed)"
      with deps show "\<exists>r. map_of rs k = Some r \<and> set (dependencies r) \<subseteq> set (name root # pushed)"
        by fastforce
    qed
  qed
  from d r1 r2 show ?thesis by (simp add: names) blast
qed

text \<open>The executor itself throws nothing: it goes through the plan or returns early.\<close>

lemma execute_outcome:
  "fst (execute ctl m target plan run) \<in> {Finished, Halted_on_fail, Halted_not_done}"
proof (induction plan arbitrary: run)
  case Nil
  show ?case by simp
next
  case (Cons r plan)
  show ?case
  proof (cases rule: recipe_cases [of ctl r target "labels run" m])
    case (halts_fail begun c1 yielded error c2 failed c3)
    show ?thesis
      by (simp add: execute_halts_fail [OF halts_fail])
  next
    case (halts_not_done begun c1 yielded label c2 succeeded c3)
    show ?thesis
      by (simp add: execute_halts_not_done [OF halts_not_done])
  next
    case (goes_on begun c1 yielded label c2 succeeded c3)
    show ?thesis
      unfolding execute_goes_on [OF goes_on] by (rule Cons.IH)
  qed
qed

text \<open>
  A run goes through the whole plan only when, at every position, the computation
  returned a label and the controller was done after \<^verbatim>\<open>succeed\<close>.
\<close>

lemma execute_Finished_entry:
  assumes "execute ctl m target (pre @ r # post) run = (Finished, run')"
  shows "\<exists>run1 begun c1 yielded label c2 succeeded c3.
           execute ctl m target pre run = (Finished, run1) \<and>
           c_begin ctl [name r] (c_new ctl [name r]) = (begun, c1) \<and>
           recipe_preserve r target (labels run1) (get_any m (name r)) c1 = ((yielded, Inr label), c2) \<and>
           c_succeed ctl [name r] label c2 = (succeeded, c3) \<and>
           c_state ctl c3 = Done"
proof -
  obtain oc run1 where pre: "execute ctl m target pre run = (oc, run1)"
    by (cases "execute ctl m target pre run")
  have "oc = Finished"
  proof (rule ccontr)
    assume no: "oc \<noteq> Finished"
    from execute_append_halted [OF pre no, of "r # post"] assms no show False by simp
  qed
  with pre have pre': "execute ctl m target pre run = (Finished, run1)" by simp
  from execute_append_Finished [OF pre', of "r # post"] assms
  have rest: "execute ctl m target (r # post) run1 = (Finished, run')" by simp
  show ?thesis
  proof (cases rule: recipe_cases [of ctl r target "labels run1" m])
    case (halts_fail begun c1 yielded error c2 failed c3)
    from rest show ?thesis
      by (simp add: execute_halts_fail [OF halts_fail])
  next
    case (halts_not_done begun c1 yielded label c2 succeeded c3)
    from rest show ?thesis
      by (simp add: execute_halts_not_done [OF halts_not_done])
  next
    case (goes_on begun c1 yielded label c2 succeeded c3)
    with pre' show ?thesis by blast
  qed
qed

text \<open>
  The loader is checked before anything is loaded: an unregistered loader ends the run
  with the error of \<^verbatim>\<open>assertModuleExists\<close>, which names it and lists the registered
  loaders, and \<^verbatim>\<open>load\<close> is not called.
\<close>

lemma unregistered_loader:
  assumes "map_of (loaders options) (loader (request options)) = None"
  shows "preserve ctl options =
           (Threw (Error (''Unknown loader with name '' @ loader (request options) @
                          ''. Possible choices: ['' @ join '', '' (keys (loaders options)) @ '']'')),
            \<lparr>req = (request options)\<lparr>settings := Some (settings_after (request options))\<rparr>,
             loads = [], executed = [], events = [], labels = []\<rparr>)"
  using assms
  by (simp add: preserve_def prepare_def Let_def assertLoaderExists_def assertModuleExists_def
      has_map_of)

section \<open>The scenarios\<close>

lemmas scenario_defs =
  options_of_def the_loader_def plain_recipe_def untidy_recipe_def raising_recipe_def
  simple_controller_def settings_after_def get_any_def
  assertLoaderExists_def assertRecipeExists_def assertModuleExists_def has_def keys_def
  prepare_def planning_def Let_def



text \<open>
  With a recipe that finishes its controller itself, the \<^verbatim>\<open>succeed\<close> of the executor
  yields nothing, the label is recorded, and the run ends on the recipe's own event.
\<close>

lemma finished_without_succeed_event:
  "preserve simple_controller (options_of ''A'' [(''A'', finishing_recipe ''A'' [] 1)]) =
     (Finished,
      \<lparr>req = \<lparr>loader = ''L'', recipe = ''A'', settings = Some []\<rparr>,
       loads = [Undefined], executed = [''A''],
       events = [Begin [''A''], Log [''A''] ''working''],
       labels = [(''A'', Value 1)]\<rparr>)"
proof -
  have p: "prepare (options_of ''A'' [(''A'', finishing_recipe ''A'' [] 1)]) =
     Inr ([], Value 100, [finishing_recipe ''A'' [] 1],
          \<lparr>req = \<lparr>loader = ''L'', recipe = ''A'', settings = Some []\<rparr>,
           loads = [Undefined], executed = [], events = [], labels = []\<rparr>)"
    by (simp add: scenario_defs finishing_recipe_def)
  show ?thesis
    unfolding preserve_Inr [OF p] by (simp add: scenario_defs finishing_recipe_def execute.simps)
qed

section \<open>The claims\<close>

subsection \<open>C1: a root recipe that is not registered\<close>

text \<open>
  C1 fails on the code. When the requested root recipe is not in the registry (and the
  loader is), the run yields no event and runs no recipe, but it does not fail before
  the load and its failure does not name the recipe: \<^verbatim>\<open>loader.load\<close> is called once,
  and the run then throws what the load raised or, when the load returned a target,
  the TypeError of reading \<^verbatim>\<open>recipe.name\<close> on line 48. The root recipe is never passed
  to \<^verbatim>\<open>assertRecipeExists\<close>.
\<close>

theorem unregistered_root_recipe:
  assumes "map_of (loaders options) (loader (request options)) = Some ld"
    and "map_of (recipes options) (recipe (request options)) = None"
  shows "preserve ctl options =
           (Threw (case load ld (get_any (settings_after (request options)) (loader (request options))) of
                     Inl e \<Rightarrow> e | Inr target \<Rightarrow> TypeError),
            \<lparr>req = (request options)\<lparr>settings := Some (settings_after (request options))\<rparr>,
             loads = [get_any (settings_after (request options)) (loader (request options))],
             executed = [], events = [], labels = []\<rparr>)"
  using assms
  by (simp add: preserve_def prepare_def Let_def assertLoaderExists_Inr split: sum.splits)

theorem unregistered_root_recipe_witness:
  "preserve simple_controller (options_of ''C'' chain) =
   (Threw TypeError,
    \<lparr>req = \<lparr>loader = ''L'', recipe = ''C'', settings = Some []\<rparr>,
     loads = [Undefined], executed = [], events = [], labels = []\<rparr>)"
  using unregistered_root_recipe [of "options_of ''C'' chain" the_loader simple_controller]
  by (simp add: options_of_def chain_def the_loader_def settings_after_def get_any_def)

subsection \<open>C2: a dependency that is not registered\<close>

text \<open>
  C2 fails on the code. In a registry keyed by name, when a name the planner can reach
  from the root is not registered (and the load has returned a target), the run
  throws before any event is yielded and before any recipe is executed, but what it
  throws is the TypeError of reading \<^verbatim>\<open>current.name\<close> on line 55, never the error of
  \<^verbatim>\<open>assertRecipeExists\<close>: the assertion is given the name of the recipe that the lookup
  has already returned.
\<close>

theorem unregistered_dependency:
  assumes "keyed_by_name (recipes options)"
    and "map_of (loaders options) (loader (request options)) = Some ld"
    and "load ld (get_any (settings_after (request options)) (loader (request options))) = Inr target"
    and "map_of (recipes options) (recipe (request options)) = Some root"
    and "reaches (recipes options) (name root) n"
    and "map_of (recipes options) n = None"
  shows "preserve ctl options =
           (Threw TypeError,
            \<lparr>req = (request options)\<lparr>settings := Some (settings_after (request options))\<rparr>,
             loads = [get_any (settings_after (request options)) (loader (request options))],
             executed = [], events = [], labels = []\<rparr>)"
proof -
  have "planning (recipes options) root = Inl TypeError"
  proof (cases "planning (recipes options) root")
    case (Inl e)
    with plan_loop_TypeError [OF assms(1), of "{}" "[name root]" "[]" e]
    show ?thesis by (simp add: planning_def)
  next
    case (Inr plan)
    from planning_reaches [OF Inr assms(5)] assms(6) show ?thesis by simp
  qed
  with assms(2-4) show ?thesis
    by (simp add: preserve_def prepare_def Let_def assertLoaderExists_Inr)
qed

theorem unregistered_dependency_witness:
  "keyed_by_name dangling \<and> reaches dangling ''a'' ''zz'' \<and> map_of dangling ''zz'' = None \<and>
   preserve simple_controller (options_of ''a'' dangling) =
   (Threw TypeError,
    \<lparr>req = \<lparr>loader = ''L'', recipe = ''a'', settings = Some []\<rparr>,
     loads = [Undefined], executed = [], events = [], labels = []\<rparr>)"
proof -
  have k: "keyed_by_name dangling"
    by (simp add: keyed_by_name_def dangling_def plain_recipe_def)
  have m: "map_of dangling ''a'' = Some (plain_recipe ''a'' [''zz''] 1)"
    by (simp add: dangling_def)
  have r: "reaches dangling ''a'' ''zz''"
    by (rule reaches.step [OF reaches.here m]) (simp add: plain_recipe_def)
  have z: "map_of dangling ''zz'' = None"
    by (simp add: dangling_def)
  have "preserve simple_controller (options_of ''a'' dangling) =
   (Threw TypeError,
    \<lparr>req = \<lparr>loader = ''L'', recipe = ''a'', settings = Some []\<rparr>,
     loads = [Undefined], executed = [], events = [], labels = []\<rparr>)"
    using unregistered_dependency [of "options_of ''a'' dangling" the_loader "Value 100"
        "plain_recipe ''a'' [''zz''] 1" "''zz''" simple_controller] k m r z
    by (simp add: options_of_def the_loader_def settings_after_def get_any_def plain_recipe_def)
  with k r z show ?thesis by simp
qed

subsection \<open>C3: each recipe once in the plan\<close>

text \<open>
  C3 fails on the code. The graph \<^term>\<open>twice_listed\<close> is acyclic and every name in it is
  registered; its root lists the dependency d twice. The filter on line 61 passes both
  occurrences, since neither is in \<^verbatim>\<open>visited\<close> yet, and the plan holds d twice. With
  dependency lists that name no recipe twice the property holds (\<open>plan_each_once\<close>).
\<close>

theorem listed_twice_planned_twice:
  "planning twice_listed (plain_recipe ''a'' [''d'', ''d''] 1) =
     Inr [plain_recipe ''d'' [] 4, plain_recipe ''d'' [] 4, plain_recipe ''a'' [''d'', ''d''] 1]"
  by (simp add: planning_def twice_listed_def plain_recipe_def assertRecipeExists_def
      assertModuleExists_def has_def keys_def)

subsection \<open>C4: a controller that is not done\<close>

text \<open>
  C4. Let the plan be \<open>pre @ r # post\<close>, let every recipe of \<open>pre\<close> have completed with
  its controller done, and let the computation of \<open>r\<close> return a label while the
  controller is not \<^verbatim>\<open>Done\<close> after \<^verbatim>\<open>succeed\<close>. Then the run ends there: the events are
  those up to and including the ones \<^verbatim>\<open>succeed\<close> yielded and nothing follows them (no
  Fail event of the executor's), the recipes executed are those of \<open>pre\<close> and \<open>r\<close>, so
  none of \<open>post\<close>, and the labels are the ones recorded before \<open>r\<close> ran, under the names
  of \<open>pre\<close>: the label of \<open>r\<close> is not recorded.
\<close>

theorem not_done_halts:
  assumes "prepare options = Inr (m, target, pre @ r # post, run0)"
    and "execute ctl m target pre run0 = (Finished, run1)"
    and "c_begin ctl [name r] (c_new ctl [name r]) = (begun, c1)"
    and "recipe_preserve r target (labels run1) (get_any m (name r)) c1 = ((yielded, Inr label), c2)"
    and "c_succeed ctl [name r] label c2 = (succeeded, c3)"
    and "c_state ctl c3 \<noteq> Done"
  shows "preserve ctl options =
           (Halted_not_done,
            run1\<lparr>executed := map name pre @ [name r],
                 events := events run1 @ begun @ yielded @ succeeded\<rparr>) \<and>
         labels (snd (preserve ctl options)) = labels run1 \<and>
         set (keys (labels run1)) = name ` set pre"
proof -
  from execute_Finished [OF assms(2)] prepare_Inr_run [OF assms(1)]
  have ex: "executed run1 = map name pre" and ks: "set (keys (labels run1)) = name ` set pre"
    by (simp_all add: keys_def)
  have "execute ctl m target (pre @ r # post) run0 = execute ctl m target (r # post) run1"
    by (rule execute_append_Finished [OF assms(2)])
  also have "\<dots> = (Halted_not_done,
            run1\<lparr>executed := executed run1 @ [name r],
                 events := events run1 @ begun @ yielded @ succeeded\<rparr>)"
    by (rule execute_halts_not_done [OF assms(3-6)])
  finally show ?thesis
    using ex ks by (simp add: preserve_Inr [OF assms(1)])
qed

theorem not_done_halts_witness:
  "preserve simple_controller (options_of ''C'' relay_untidy) =
     (Halted_not_done,
      \<lparr>req = \<lparr>loader = ''L'', recipe = ''C'', settings = Some []\<rparr>,
       loads = [Undefined], executed = [''A'', ''B''],
       events = [Begin [''A''], Log [''A''] ''working'', Succeed [''A''] (Value 1), Begin [''B'']],
       labels = [(''A'', Value 1)]\<rparr>)"
proof -
  let ?run0 = "\<lparr>req = \<lparr>loader = ''L'', recipe = ''C'', settings = Some []\<rparr>,
       loads = [Undefined], executed = [], events = [], labels = []\<rparr>"
  let ?run1 = "\<lparr>req = \<lparr>loader = ''L'', recipe = ''C'', settings = Some []\<rparr>,
       loads = [Undefined], executed = [''A''],
       events = [Begin [''A''], Log [''A''] ''working'', Succeed [''A''] (Value 1)],
       labels = [(''A'', Value 1)]\<rparr>"
  have 1: "prepare (options_of ''C'' relay_untidy) =
      Inr ([], Value 100,
           [plain_recipe ''A'' [] 1] @ untidy_recipe ''B'' [''A''] 2 # [plain_recipe ''C'' [''B''] 3],
           ?run0)"
    by (simp add: scenario_defs relay_untidy_def)
  have 2: "execute simple_controller [] (Value 100) [plain_recipe ''A'' [] 1] ?run0 = (Finished, ?run1)"
    by (simp add: scenario_defs execute.simps)
  have 3: "c_begin simple_controller [name (untidy_recipe ''B'' [''A''] 2)]
             (c_new simple_controller [name (untidy_recipe ''B'' [''A''] 2)]) = ([Begin [''B'']], Active)"
    by (simp add: scenario_defs)
  have 4: "recipe_preserve (untidy_recipe ''B'' [''A''] 2) (Value 100) (labels ?run1)
             (get_any [] (name (untidy_recipe ''B'' [''A''] 2))) Active =
           (([], Inr (Value 2)), OtherState 1)"
    by (simp add: scenario_defs)
  have 5: "c_succeed simple_controller [name (untidy_recipe ''B'' [''A''] 2)] (Value 2) (OtherState 1) =
           ([], OtherState 1)"
    by (simp add: scenario_defs)
  have 6: "c_state simple_controller (OtherState 1) \<noteq> Done"
    by (simp add: scenario_defs)
  from not_done_halts [OF 1 2 3 4 5 6] show ?thesis
    by (simp add: untidy_recipe_def plain_recipe_def)
qed

subsection \<open>C5: a recipe that raises\<close>

text \<open>
  C5. Let the plan be \<open>pre @ r # post\<close>, with \<open>r\<close> at position \<open>k = length pre\<close>, let every
  recipe of \<open>pre\<close> have completed with its controller done, and let the computation of
  \<open>r\<close> raise an error. Then the events the controller's \<^verbatim>\<open>fail\<close> yields for that error
  are the last events of the run, no recipe of \<open>post\<close> is executed, and the labels are
  the ones recorded by the positions before \<open>k\<close>, under the names of \<open>pre\<close>: nothing is
  recorded for a position from \<open>k\<close> on.
\<close>

theorem failure_halts:
  assumes "prepare options = Inr (m, target, pre @ r # post, run0)"
    and "execute ctl m target pre run0 = (Finished, run1)"
    and "c_begin ctl [name r] (c_new ctl [name r]) = (begun, c1)"
    and "recipe_preserve r target (labels run1) (get_any m (name r)) c1 = ((yielded, Inl error), c2)"
    and "c_fail ctl [name r] error c2 = (failed, c3)"
  shows "preserve ctl options =
           (Halted_on_fail,
            run1\<lparr>executed := map name pre @ [name r],
                 events := events run1 @ begun @ yielded @ failed\<rparr>) \<and>
         labels (snd (preserve ctl options)) = labels run1 \<and>
         set (keys (labels run1)) = name ` set pre"
proof -
  from execute_Finished [OF assms(2)] prepare_Inr_run [OF assms(1)]
  have ex: "executed run1 = map name pre" and ks: "set (keys (labels run1)) = name ` set pre"
    by (simp_all add: keys_def)
  have "execute ctl m target (pre @ r # post) run0 = execute ctl m target (r # post) run1"
    by (rule execute_append_Finished [OF assms(2)])
  also have "\<dots> = (Halted_on_fail,
            run1\<lparr>executed := executed run1 @ [name r],
                 events := events run1 @ begun @ yielded @ failed\<rparr>)"
    by (rule execute_halts_fail [OF assms(3-5)])
  finally show ?thesis
    using ex ks by (simp add: preserve_Inr [OF assms(1)])
qed

theorem failure_halts_witness:
  "preserve simple_controller (options_of ''C'' relay_raising) =
     (Halted_on_fail,
      \<lparr>req = \<lparr>loader = ''L'', recipe = ''C'', settings = Some []\<rparr>,
       loads = [Undefined], executed = [''A'', ''B''],
       events = [Begin [''A''], Log [''A''] ''working'', Succeed [''A''] (Value 1), Begin [''B''],
                 Fail [''B''] (Raised (Value 13))],
       labels = [(''A'', Value 1)]\<rparr>)"
proof -
  let ?run0 = "\<lparr>req = \<lparr>loader = ''L'', recipe = ''C'', settings = Some []\<rparr>,
       loads = [Undefined], executed = [], events = [], labels = []\<rparr>"
  let ?run1 = "\<lparr>req = \<lparr>loader = ''L'', recipe = ''C'', settings = Some []\<rparr>,
       loads = [Undefined], executed = [''A''],
       events = [Begin [''A''], Log [''A''] ''working'', Succeed [''A''] (Value 1)],
       labels = [(''A'', Value 1)]\<rparr>"
  have 1: "prepare (options_of ''C'' relay_raising) =
      Inr ([], Value 100,
           [plain_recipe ''A'' [] 1] @ raising_recipe ''B'' [''A''] # [plain_recipe ''C'' [''B''] 3],
           ?run0)"
    by (simp add: scenario_defs relay_raising_def)
  have 2: "execute simple_controller [] (Value 100) [plain_recipe ''A'' [] 1] ?run0 = (Finished, ?run1)"
    by (simp add: scenario_defs execute.simps)
  have 3: "c_begin simple_controller [name (raising_recipe ''B'' [''A''])]
             (c_new simple_controller [name (raising_recipe ''B'' [''A''])]) = ([Begin [''B'']], Active)"
    by (simp add: scenario_defs)
  have 4: "recipe_preserve (raising_recipe ''B'' [''A'']) (Value 100) (labels ?run1)
             (get_any [] (name (raising_recipe ''B'' [''A'']))) Active =
           (([], Inl (Raised (Value 13))), Active)"
    by (simp add: scenario_defs)
  have 5: "c_fail simple_controller [name (raising_recipe ''B'' [''A''])] (Raised (Value 13)) Active =
           ([Fail [''B''] (Raised (Value 13))], OtherState 1)"
    by (simp add: scenario_defs)
  from failure_halts [OF 1 2 3 4 5] show ?thesis
    by (simp add: raising_recipe_def plain_recipe_def)
qed

subsection \<open>C6: a fully successful run\<close>




subsection \<open>C7: the root is last, and the diamond\<close>

text \<open>
  C7. Whenever planning returns a plan for a root recipe that is registered under its
  own name, the plan is not empty and the root is its last entry. And in a diamond, a
  on b and c, b and c both on d, with any four distinct names, the plan of a is
  d, c, b, a: d precedes b and c, which precede a.
\<close>

theorem root_is_last:
  fixes rs :: "'s Recipe jsmap"
  shows "(\<forall>root plan. planning rs root = Inr plan \<longrightarrow> map_of rs (name root) = Some root \<longrightarrow>
            plan \<noteq> [] \<and> last plan = root) \<and>
         (\<forall>a b c d ra rb rc rd.
            distinct [a, b, c, d] \<and>
            map_of rs a = Some ra \<and> name ra = a \<and> dependencies ra = [b, c] \<and>
            map_of rs b = Some rb \<and> name rb = b \<and> dependencies rb = [d] \<and>
            map_of rs c = Some rc \<and> name rc = c \<and> dependencies rc = [d] \<and>
            map_of rs d = Some rd \<and> name rd = d \<and> dependencies rd = [] \<longrightarrow>
            planning rs ra = Inr [rd, rc, rb, ra])"
proof (intro conjI allI impI)
  fix root :: "'s Recipe" and plan
  assume p: "planning rs root = Inr plan" and r: "map_of rs (name root) = Some root"
  from planning_last [OF p] r show "plan \<noteq> []" "last plan = root" by simp_all
next
  fix a b c d and ra rb rc rd :: "'s Recipe"
  assume h: "distinct [a, b, c, d] \<and>
            map_of rs a = Some ra \<and> name ra = a \<and> dependencies ra = [b, c] \<and>
            map_of rs b = Some rb \<and> name rb = b \<and> dependencies rb = [d] \<and>
            map_of rs c = Some rc \<and> name rc = c \<and> dependencies rc = [d] \<and>
            map_of rs d = Some rd \<and> name rd = d \<and> dependencies rd = []"
  then have ma: "map_of rs a = Some ra" and mb: "map_of rs b = Some rb"
    and mc: "map_of rs c = Some rc" and md: "map_of rs d = Some rd"
    and na: "name ra = a" and nb: "name rb = b" and nc: "name rc = c" and nd: "name rd = d"
    and da: "dependencies ra = [b, c]" and db: "dependencies rb = [d]"
    and dc: "dependencies rc = [d]" and dd: "dependencies rd = []"
    and ne: "b \<noteq> d" "c \<noteq> d"
    by simp_all
  from ne have ne': "d \<noteq> b" "d \<noteq> c" by blast+
  have ha: "has rs (name ra)" using ma by (simp only: na has_map_of) simp
  have hb: "has rs (name rb)" using mb by (simp only: nb has_map_of) simp
  have hc: "has rs (name rc)" using mc by (simp only: nc has_map_of) simp
  have hd: "has rs (name rd)" using md by (simp only: nd has_map_of) simp
  have "planning rs ra = plan_loop rs {} [a] []"
    by (simp add: planning_def na)
  also have "\<dots> = plan_loop rs {b, c} [b, c] [ra]"
    by (simp add: plan_loop_registered [OF ma ha] da insert_commute del: plan_loop.simps(2))
  also have "\<dots> = plan_loop rs {b, c, d} [c, d] [rb, ra]"
    using ne ne' by (simp add: plan_loop_registered [OF mb hb] db insert_commute del: plan_loop.simps(2))
  also have "\<dots> = plan_loop rs {b, c, d} [d] [rc, rb, ra]"
    by (simp add: plan_loop_registered [OF mc hc] dc del: plan_loop.simps(2))
  also have "\<dots> = plan_loop rs {b, c, d} [] [rd, rc, rb, ra]"
    by (simp add: plan_loop_registered [OF md hd] dd del: plan_loop.simps(2))
  finally show "planning rs ra = Inr [rd, rc, rb, ra]" by simp
qed

theorem root_is_last_witness:
  "planning diamond (plain_recipe ''a'' [''b'', ''c''] 1) =
     Inr [plain_recipe ''d'' [] 4, plain_recipe ''c'' [''d''] 3, plain_recipe ''b'' [''d''] 2,
          plain_recipe ''a'' [''b'', ''c''] 1] \<and>
   last [plain_recipe ''d'' [] 4, plain_recipe ''c'' [''d''] 3, plain_recipe ''b'' [''d''] 2,
          plain_recipe ''a'' [''b'', ''c''] 1] = plain_recipe ''a'' [''b'', ''c''] 1"
proof -
  have d: "planning diamond (plain_recipe ''a'' [''b'', ''c''] 1) =
     Inr [plain_recipe ''d'' [] 4, plain_recipe ''c'' [''d''] 3, plain_recipe ''b'' [''d''] 2,
          plain_recipe ''a'' [''b'', ''c''] 1]"
    using root_is_last [of diamond, THEN conjunct2, rule_format,
        of "''a''" "''b''" "''c''" "''d''" "plain_recipe ''a'' [''b'', ''c''] 1"
           "plain_recipe ''b'' [''d''] 2" "plain_recipe ''c'' [''d''] 3" "plain_recipe ''d'' [] 4"]
    by (simp add: diamond_def plain_recipe_def)
  have m: "map_of diamond (name (plain_recipe ''a'' [''b'', ''c''] 1)) =
             Some (plain_recipe ''a'' [''b'', ''c''] 1)"
    by (simp add: diamond_def plain_recipe_def)
  from root_is_last [of diamond, THEN conjunct1, rule_format, OF d m] d show ?thesis
    by simp
qed

subsection \<open>C8: the request object\<close>

text \<open>
  C8 fails on the code: lines 22 to 24 assign to the request. As amended: a run leaves
  the request as it was when it has a \<^verbatim>\<open>settings\<close> property; when it has none, the run
  gives it one, an empty map, and changes nothing else in it. This holds for every run,
  however it ends.
\<close>

theorem request_settings_defaulted:
  "req (snd (preserve ctl options)) =
     (case settings (request options) of
        None \<Rightarrow> (request options)\<lparr>settings := Some []\<rparr>
      | Some m \<Rightarrow> request options)"
proof -
  have "req (snd (preserve ctl options)) =
          (request options)\<lparr>settings := Some (settings_after (request options))\<rparr>"
  proof (cases "prepare options")
    case (Inl stopped)
    then show ?thesis
      using prepare_Inl [of options "fst stopped" "snd stopped"]
      by (simp add: preserve_def)
  next
    case (Inr ready)
    obtain m target plan run where r: "ready = (m, target, plan, run)"
      by (cases ready) auto
    obtain oc run' where e: "execute ctl m target plan run = (oc, run')"
      by (cases "execute ctl m target plan run")
    from execute_frame [OF e] prepare_Inr_req [of options m target plan run] Inr r e
    show ?thesis by (simp add: preserve_def)
  qed
  then show ?thesis
    by (simp add: settings_after_def split: option.splits)
qed

text \<open>The request of the spec's first scenario has no settings; after the run it has.\<close>

theorem request_modified_counterexample:
  "req (snd (preserve simple_controller (options_of ''B'' chain))) \<noteq>
   request (options_of ''B'' chain)"
proof -
  have "prepare (options_of ''B'' chain) =
      Inr ([], Value 100, [plain_recipe ''A'' [] 1, plain_recipe ''B'' [''A''] 2],
           \<lparr>req = \<lparr>loader = ''L'', recipe = ''B'', settings = Some []\<rparr>,
            loads = [Undefined], executed = [], events = [], labels = []\<rparr>)"
    by (simp add: scenario_defs chain_def)
  from preserve_Inr [OF this, of simple_controller] show ?thesis
    by (simp add: scenario_defs execute.simps)
qed

subsection \<open>C9: the root is not marked visited\<close>

text \<open>
  C9 fails on the code as it is stated: planning can fail before the root is enqueued
  again, and a run can halt before it reaches the root's second entry. As amended. The
  planner starts with an empty visited set and the root's name in the queue. So when
  some recipe that the planner reaches from the root lists the root's name as a
  dependency, and the root is registered under its own name, every plan that planning
  returns holds the root recipe at least twice, and planning does return a plan when
  the registry is closed and keyed by name; a run that goes through the whole plan
  executes the root at least twice.
\<close>

theorem root_planned_again:
  assumes "map_of rs (name root) = Some root"
    and "reaches rs (name root) b" and "map_of rs b = Some r"
    and "name root \<in> set (dependencies r)"
  shows "planning rs root = plan_loop rs {} [name root] [] \<and>
         (keyed_by_name rs \<and> closed rs \<longrightarrow> (\<exists>plan. planning rs root = Inr plan)) \<and>
         (\<forall>plan. planning rs root = Inr plan \<longrightarrow>
            2 \<le> count_list plan root \<and>
            (\<forall>ctl m target run run'. execute ctl m target plan run = (Finished, run') \<longrightarrow>
               2 \<le> count_list (executed run') (name root)))"
proof (intro conjI allI impI)
  show "planning rs root = plan_loop rs {} [name root] []"
    by (simp add: planning_def)
next
  assume "keyed_by_name rs \<and> closed rs"
  then show "\<exists>plan. planning rs root = Inr plan"
    using planning_succeeds [OF _ _ assms(1)] by (simp add: closed_def)
next
  fix plan
  assume pl: "planning rs root = Inr plan"
  from planning_trace [OF pl] obtain pushed where
    p: "plan = rev (map (\<lambda>n. the (map_of rs n)) (name root # pushed))"
    and d: "\<forall>n \<in> set (name root # pushed).
           \<exists>r. map_of rs n = Some r \<and> set (dependencies r) \<subseteq> set pushed"
    by blast
  have "b \<in> set (name root # pushed)"
  proof (rule reaches_dequeued [OF assms(2)])
    show "name root \<in> set (name root # pushed)" by simp
  next
    fix k assume "k \<in> set (name root # pushed)"
    with d show "\<exists>r. map_of rs k = Some r \<and> set (dependencies r) \<subseteq> set (name root # pushed)"
      by fastforce
  qed
  with d assms(3,4) have again: "name root \<in> set pushed" by fastforce
  from count_list_map_ge [OF again, of "\<lambda>n. the (map_of rs n)"] assms(1)
  have "1 \<le> count_list (map (\<lambda>n. the (map_of rs n)) pushed) root" by simp
  with p assms(1) show twice: "2 \<le> count_list plan root"
    by (simp add: count_list_rev)
  have names: "2 \<le> count_list (map name plan) (name root)"
    using twice count_list_map_le [of plan root name] by (rule le_trans)
  fix ctl :: "'a Controller" and m target run run'
  assume "execute ctl m target plan run = (Finished, run')"
  from execute_Finished [OF this] names
  show "2 \<le> count_list (executed run') (name root)"
    by (simp add: count_list_append)
qed

theorem root_planned_again_witness:
  "keyed_by_name mutual \<and> closed mutual \<and>
   planning mutual (plain_recipe ''a'' [''b''] 1) =
     Inr [plain_recipe ''a'' [''b''] 1, plain_recipe ''b'' [''a''] 2, plain_recipe ''a'' [''b''] 1] \<and>
   2 \<le> count_list
          [plain_recipe ''a'' [''b''] 1, plain_recipe ''b'' [''a''] 2, plain_recipe ''a'' [''b''] 1]
          (plain_recipe ''a'' [''b''] 1) \<and>
   preserve simple_controller (options_of ''a'' mutual) =
     (Finished,
      \<lparr>req = \<lparr>loader = ''L'', recipe = ''a'', settings = Some []\<rparr>,
       loads = [Undefined], executed = [''a'', ''b'', ''a''],
       events = [Begin [''a''], Log [''a''] ''working'', Succeed [''a''] (Value 1),
                 Begin [''b''], Log [''b''] ''working'', Succeed [''b''] (Value 2),
                 Begin [''a''], Log [''a''] ''working'', Succeed [''a''] (Value 1)],
       labels = [(''a'', Value 1), (''b'', Value 2)]\<rparr>) \<and>
   2 \<le> count_list [''a'', ''b'', ''a''] ''a''"
proof -
  let ?ra = "plain_recipe ''a'' [''b''] 1" and ?rb = "plain_recipe ''b'' [''a''] 2"
  let ?run0 = "\<lparr>req = \<lparr>loader = ''L'', recipe = ''a'', settings = Some []\<rparr>,
       loads = [Undefined], executed = [], events = [], labels = []\<rparr>"
  let ?run' = "\<lparr>req = \<lparr>loader = ''L'', recipe = ''a'', settings = Some []\<rparr>,
       loads = [Undefined], executed = [''a'', ''b'', ''a''],
       events = [Begin [''a''], Log [''a''] ''working'', Succeed [''a''] (Value 1),
                 Begin [''b''], Log [''b''] ''working'', Succeed [''b''] (Value 2),
                 Begin [''a''], Log [''a''] ''working'', Succeed [''a''] (Value 1)],
       labels = [(''a'', Value 1), (''b'', Value 2)]\<rparr>"
  have k: "keyed_by_name mutual"
    by (simp add: keyed_by_name_def mutual_def plain_recipe_def)
  have c: "closed mutual"
    by (simp add: closed_def listed_def keys_def mutual_def plain_recipe_def)
  have 1: "map_of mutual (name ?ra) = Some ?ra"
    by (simp add: mutual_def plain_recipe_def)
  have 3: "map_of mutual ''b'' = Some ?rb"
    by (simp add: mutual_def)
  have 2: "reaches mutual (name ?ra) ''b''"
    by (rule reaches.step [OF reaches.here 1]) (simp add: plain_recipe_def)
  have 4: "name ?ra \<in> set (dependencies ?rb)"
    by (simp add: plain_recipe_def)
  have pl: "planning mutual ?ra = Inr [?ra, ?rb, ?ra]"
    by (simp add: scenario_defs mutual_def)
  have p: "prepare (options_of ''a'' mutual) = Inr ([], Value 100, [?ra, ?rb, ?ra], ?run0)"
    by (simp add: scenario_defs mutual_def)
  have e: "execute simple_controller [] (Value 100) [?ra, ?rb, ?ra] ?run0 = (Finished, ?run')"
    by (simp add: scenario_defs execute.simps)
  from root_planned_again [OF 1 2 3 4] pl
  have "2 \<le> count_list [?ra, ?rb, ?ra] ?ra"
    and "execute simple_controller [] (Value 100) [?ra, ?rb, ?ra] ?run0 = (Finished, ?run') \<longrightarrow>
         2 \<le> count_list (executed ?run') (name ?ra)"
    by blast+
  with k c pl e show ?thesis
    by (simp add: preserve_Inr [OF p] plain_recipe_def)
qed

text \<open>
  In \<^term>\<open>mutual_raising\<close> the plan is a, b, a, and b raises: the run halts there and
  the root has been executed once. In \<^term>\<open>mutual_dangling\<close> the planner meets the
  unregistered name before it meets b: planning throws and there is no plan.
\<close>

theorem root_executed_once_counterexample:
  "reaches mutual_raising ''a'' ''b'' \<and>
   map_of mutual_raising ''b'' = Some (raising_recipe ''b'' [''a'']) \<and>
   ''a'' \<in> set (dependencies (raising_recipe ''b'' [''a''])) \<and>
   preserve simple_controller (options_of ''a'' mutual_raising) =
     (Halted_on_fail,
      \<lparr>req = \<lparr>loader = ''L'', recipe = ''a'', settings = Some []\<rparr>,
       loads = [Undefined], executed = [''a'', ''b''],
       events = [Begin [''a''], Log [''a''] ''working'', Succeed [''a''] (Value 1),
                 Begin [''b''], Fail [''b''] (Raised (Value 13))],
       labels = [(''a'', Value 1)]\<rparr>) \<and>
   count_list [''a'', ''b''] ''a'' = 1 \<and>
   reaches mutual_dangling ''a'' ''b'' \<and>
   map_of mutual_dangling ''b'' = Some (plain_recipe ''b'' [''a''] 2) \<and>
   ''a'' \<in> set (dependencies (plain_recipe ''b'' [''a''] 2)) \<and>
   planning mutual_dangling (plain_recipe ''a'' [''zz'', ''b''] 1) = Inl TypeError"
proof -
  have a1: "map_of mutual_raising ''a'' = Some (plain_recipe ''a'' [''b''] 1)"
    by (simp add: mutual_raising_def)
  have r1: "reaches mutual_raising ''a'' ''b''"
    by (rule reaches.step [OF reaches.here a1]) (simp add: plain_recipe_def)
  have b1: "map_of mutual_raising ''b'' = Some (raising_recipe ''b'' [''a''])"
    by (simp add: mutual_raising_def)
  have p: "prepare (options_of ''a'' mutual_raising) =
     Inr ([], Value 100,
          [plain_recipe ''a'' [''b''] 1, raising_recipe ''b'' [''a''], plain_recipe ''a'' [''b''] 1],
          \<lparr>req = \<lparr>loader = ''L'', recipe = ''a'', settings = Some []\<rparr>,
           loads = [Undefined], executed = [], events = [], labels = []\<rparr>)"
    by (simp add: scenario_defs mutual_raising_def)
  have e: "preserve simple_controller (options_of ''a'' mutual_raising) =
     (Halted_on_fail,
      \<lparr>req = \<lparr>loader = ''L'', recipe = ''a'', settings = Some []\<rparr>,
       loads = [Undefined], executed = [''a'', ''b''],
       events = [Begin [''a''], Log [''a''] ''working'', Succeed [''a''] (Value 1),
                 Begin [''b''], Fail [''b''] (Raised (Value 13))],
       labels = [(''a'', Value 1)]\<rparr>)"
    unfolding preserve_Inr [OF p] by (simp add: scenario_defs execute.simps)
  have a2: "map_of mutual_dangling ''a'' = Some (plain_recipe ''a'' [''zz'', ''b''] 1)"
    by (simp add: mutual_dangling_def)
  have r2: "reaches mutual_dangling ''a'' ''b''"
    by (rule reaches.step [OF reaches.here a2]) (simp add: plain_recipe_def)
  have b2: "map_of mutual_dangling ''b'' = Some (plain_recipe ''b'' [''a''] 2)"
    by (simp add: mutual_dangling_def)
  have t: "planning mutual_dangling (plain_recipe ''a'' [''zz'', ''b''] 1) = Inl TypeError"
    by (simp add: scenario_defs mutual_dangling_def)
  from r1 b1 e r2 b2 t show ?thesis
    by (simp add: raising_recipe_def plain_recipe_def)
qed

subsection \<open>C10: an error of the loader\<close>

text \<open>
  C10. When \<^verbatim>\<open>loader.load\<close> raises, the run throws that error to its caller: no event
  is yielded (so no Fail event), and no recipe is executed.
\<close>

theorem load_error_propagates:
  assumes "map_of (loaders options) (loader (request options)) = Some ld"
    and "load ld (get_any (settings_after (request options)) (loader (request options))) = Inl e"
  shows "preserve ctl options =
           (Threw e,
            \<lparr>req = (request options)\<lparr>settings := Some (settings_after (request options))\<rparr>,
             loads = [get_any (settings_after (request options)) (loader (request options))],
             executed = [], events = [], labels = []\<rparr>)"
  using assms by (simp add: preserve_def prepare_def Let_def assertLoaderExists_Inr)

theorem load_error_propagates_witness:
  "preserve simple_controller
     \<lparr>request = \<lparr>loader = ''L'', recipe = ''B'', settings = None\<rparr>,
      loaders = [(''L'', broken_loader)], recipes = chain\<rparr> =
   (Threw (Raised (Value 7)),
    \<lparr>req = \<lparr>loader = ''L'', recipe = ''B'', settings = Some []\<rparr>,
     loads = [Undefined], executed = [], events = [], labels = []\<rparr>)"
  using load_error_propagates [of
      "\<lparr>request = \<lparr>loader = ''L'', recipe = ''B'', settings = None\<rparr>,
        loaders = [(''L'', broken_loader)], recipes = chain\<rparr>"
      broken_loader "Raised (Value 7)" simple_controller]
  by (simp add: broken_loader_def settings_after_def get_any_def)

end
